theory Spec2Isabelle
  imports Complex_Main "HOL-Library.Multiset"
begin

section \<open>The grid\<close>

text \<open>
  A board is the Python list of nine lists of ints, \<open>0\<close> for a blank cell. Reading
  \<open>board[i][j]\<close> outside the lists raises \<open>IndexError\<close>; the model makes that a value.
  Indices come from \<open>range\<close>, so they are never negative.
\<close>

datatype py_error = IndexError

type_synonym board = "int list list"

definition get_cell :: "board \<Rightarrow> nat \<Rightarrow> nat \<Rightarrow> py_error + int" where
  "get_cell b i j =
     (if i < length b \<and> j < length (b ! i) then Inr (b ! i ! j) else Inl IndexError)"

definition set_cell :: "board \<Rightarrow> nat \<Rightarrow> nat \<Rightarrow> int \<Rightarrow> py_error + board" where
  "set_cell b i j v =
     (if i < length b \<and> j < length (b ! i) then Inr (b[i := (b ! i)[j := v]])
      else Inl IndexError)"

section \<open>The validator\<close>

text \<open>
  Each of the three loops of \<open>is_valid_move\<close> walks a list of coordinates and leaves
  with \<open>False\<close> at the first cell holding \<open>num\<close>. \<open>contains_num\<close> is one such walk:
  \<open>Inr True\<close> when \<open>num\<close> was met.
\<close>

fun contains_num :: "board \<Rightarrow> (nat \<times> nat) list \<Rightarrow> int \<Rightarrow> py_error + bool" where
  "contains_num b [] num = Inr False"
| "contains_num b ((r, c) # cs) num =
     (case get_cell b r c of
        Inl e \<Rightarrow> Inl e
      | Inr v \<Rightarrow> if v = num then Inr True else contains_num b cs num)"

definition row_cells :: "nat \<Rightarrow> (nat \<times> nat) list" where
  "row_cells row = map (\<lambda>x. (row, x)) [0..<9]"

definition col_cells :: "nat \<Rightarrow> (nat \<times> nat) list" where
  "col_cells col = map (\<lambda>x. (x, col)) [0..<9]"

definition box_cells :: "nat \<Rightarrow> nat \<Rightarrow> (nat \<times> nat) list" where
  "box_cells row col =
     (let start_row = row - row mod 3; start_col = col - col mod 3
      in concat (map (\<lambda>i. map (\<lambda>j. (i + start_row, j + start_col)) [0..<3]) [0..<3]))"

definition is_valid_move :: "board \<Rightarrow> nat \<Rightarrow> nat \<Rightarrow> int \<Rightarrow> py_error + bool" where
  "is_valid_move b row col num =
     (case contains_num b (row_cells row) num of
        Inl e \<Rightarrow> Inl e
      | Inr True \<Rightarrow> Inr False
      | Inr False \<Rightarrow>
          (case contains_num b (col_cells col) num of
             Inl e \<Rightarrow> Inl e
           | Inr True \<Rightarrow> Inr False
           | Inr False \<Rightarrow>
               (case contains_num b (box_cells row col) num of
                  Inl e \<Rightarrow> Inl e
                | Inr True \<Rightarrow> Inr False
                | Inr False \<Rightarrow> Inr True)))"

section \<open>The solver\<close>

text \<open>
  \<open>for i in range(9): for j in range(9): if board[i][j] == 0\<close> finds the first blank
  cell in row-major order.
\<close>

definition all_cells :: "(nat \<times> nat) list" where
  "all_cells = concat (map (\<lambda>i. map (\<lambda>j. (i, j)) [0..<9]) [0..<9])"

fun first_empty :: "board \<Rightarrow> (nat \<times> nat) list \<Rightarrow> py_error + (nat \<times> nat) option" where
  "first_empty b [] = Inr None"
| "first_empty b ((i, j) # cs) =
     (case get_cell b i j of
        Inl e \<Rightarrow> Inl e
      | Inr v \<Rightarrow> if v = 0 then Inr (Some (i, j)) else first_empty b cs)"

text \<open>
  The two files hold the same \<open>solve_sudoku\<close> but for the line that makes \<open>nums\<close>:
  \<open>range(1, 10)\<close> in \<open>sudoku_game.py\<close>, a shuffled \<open>list(range(1, 10))\<close> in
  \<open>sudoku_enhanced.py\<close>. The search takes that line as \<open>pick\<close>, which reads the state
  of the random generator and returns the digits to try with the new state. The board is
  mutated in place, so it is threaded through the calls and returned.
\<close>

function (domintros) solve_search ::
    "('r \<Rightarrow> int list \<times> 'r) \<Rightarrow> board \<Rightarrow> 'r \<Rightarrow> py_error + (bool \<times> board \<times> 'r)"
  and try_nums ::
    "('r \<Rightarrow> int list \<times> 'r) \<Rightarrow> board \<Rightarrow> nat \<Rightarrow> nat \<Rightarrow> int list \<Rightarrow> 'r
       \<Rightarrow> py_error + (bool \<times> board \<times> 'r)"
where
  "solve_search pick b s =
     (case first_empty b all_cells of
        Inl e \<Rightarrow> Inl e
      | Inr None \<Rightarrow> Inr (True, b, s)
      | Inr (Some (i, j)) \<Rightarrow> (case pick s of (nums, s1) \<Rightarrow> try_nums pick b i j nums s1))"
| "try_nums pick b i j [] s = Inr (False, b, s)"
| "try_nums pick b i j (num # nums) s =
     (case is_valid_move b i j num of
        Inl e \<Rightarrow> Inl e
      | Inr False \<Rightarrow> try_nums pick b i j nums s
      | Inr True \<Rightarrow>
          (case set_cell b i j num of
             Inl e \<Rightarrow> Inl e
           | Inr b1 \<Rightarrow>
               (case solve_search pick b1 s of
                  Inl e \<Rightarrow> Inl e
                | Inr (True, b2, s2) \<Rightarrow> Inr (True, b2, s2)
                | Inr (False, b2, s2) \<Rightarrow>
                    (case set_cell b2 i j 0 of
                       Inl e \<Rightarrow> Inl e
                     | Inr b3 \<Rightarrow> try_nums pick b3 i j nums s2))))"
  by pat_completeness auto

text \<open>
  Termination: a digit is placed only on a cell that \<open>is_valid_move\<close> has compared
  with it, so the number of blank cells drops at every nested call. The board that comes
  back from a failed call is the board that went in, which the proof of termination needs
  for the calls after it.
\<close>

definition zeros :: "board \<Rightarrow> nat" where
  "zeros b = sum_list (map (\<lambda>r. length (filter (\<lambda>v. v = 0) r)) b)"

lemma count_update:
  "j < length xs \<Longrightarrow>
   length (filter P (xs[j := v])) + (if P (xs ! j) then 1 else 0) =
   length (filter P xs) + (if P v then 1 else 0)"
proof (induction xs arbitrary: j)
  case Nil
  then show ?case by simp
next
  case (Cons x xs)
  then show ?case by (cases j) auto
qed

lemma sum_list_map_update:
  "i < length b \<Longrightarrow>
   sum_list (map f (b[i := r])) + f (b ! i) = sum_list (map f b) + (f r :: nat)"
proof (induction b arbitrary: i)
  case Nil
  then show ?case by simp
next
  case (Cons x xs)
  then show ?case by (cases i) auto
qed

lemma zeros_update:
  assumes "i < length b" "j < length (b ! i)"
  shows "zeros (b[i := (b ! i)[j := v]]) + (if b ! i ! j = 0 then 1 else 0) =
         zeros b + (if v = 0 then 1 else 0)"
proof -
  let ?f = "\<lambda>r. length (filter (\<lambda>v. v = (0::int)) r)"
  have "sum_list (map ?f (b[i := (b ! i)[j := v]])) + ?f (b ! i) =
        sum_list (map ?f b) + ?f ((b ! i)[j := v])"
    using assms(1) by (rule sum_list_map_update)
  moreover have "?f ((b ! i)[j := v]) + (if b ! i ! j = 0 then 1 else 0) =
        ?f (b ! i) + (if v = 0 then 1 else 0)"
    using count_update [OF assms(2), of "\<lambda>v. v = 0" v] by simp
  ultimately show ?thesis unfolding zeros_def by linarith
qed

lemma contains_num_False:
  "contains_num b cs num = Inr False \<Longrightarrow> (r, c) \<in> set cs \<Longrightarrow>
   \<exists>v. get_cell b r c = Inr v \<and> v \<noteq> num"
  by (induction b cs num rule: contains_num.induct)
     (auto split: sum.splits if_splits)

lemma self_in_box_cells: "(i, j) \<in> set (box_cells i j)"
proof -
  have "(i mod 3 + (i - i mod 3), j mod 3 + (j - j mod 3)) \<in>
        (\<Union>x\<in>{0..<3}. (\<lambda>y. (x + (i - i mod 3), y + (j - j mod 3))) ` {0..<3})"
    by (intro UN_I [of "i mod 3"] imageI) simp_all
  then show ?thesis by (simp add: box_cells_def)
qed

lemma valid_move_cell:
  assumes "is_valid_move b i j num = Inr True"
  shows "\<exists>v. get_cell b i j = Inr v \<and> v \<noteq> num"
proof -
  from assms have "contains_num b (box_cells i j) num = Inr False"
    by (auto simp: is_valid_move_def split: sum.splits bool.splits)
  then show ?thesis using self_in_box_cells by (rule contains_num_False)
qed

lemma set_cell_same: "get_cell b i j = Inr v \<Longrightarrow> set_cell b i j v = Inr b"
  by (auto simp: get_cell_def set_cell_def split: if_splits)

lemma set_cell_twice:
  "set_cell b i j v = Inr b1 \<Longrightarrow> set_cell b1 i j w = set_cell b i j w"
  by (auto simp: set_cell_def split: if_splits)

lemma first_empty_Some:
  "first_empty b cs = Inr (Some (i, j)) \<Longrightarrow> get_cell b i j = Inr 0 \<and> (i, j) \<in> set cs"
  by (induction b cs rule: first_empty.induct) (auto split: sum.splits if_splits)

lemma search_restores:
  "solve_search_try_nums_dom (Inl (pick, b, s)) \<Longrightarrow>
     solve_search pick b s = Inr (False, b', s') \<Longrightarrow> b' = b"
  "solve_search_try_nums_dom (Inr (pick, b, i, j, nums, s)) \<Longrightarrow>
     try_nums pick b i j nums s = Inr (False, b', s') \<Longrightarrow>
     b' = b \<or> set_cell b i j 0 = Inr b'"
proof (induction pick b s and pick b i j nums s arbitrary: b' s' and b' s'
       rule: solve_search_try_nums.pinduct)
  case (1 pick b s)
  from "1.prems" "1.hyps" obtain i j nums s1 where
    fe: "first_empty b all_cells = Inr (Some (i, j))" and pk: "pick s = (nums, s1)" and
    tr: "try_nums pick b i j nums s1 = Inr (False, b', s')"
    by (auto simp: solve_search.psimps split: sum.splits option.splits prod.splits)
  have "b' = b \<or> set_cell b i j 0 = Inr b'"
    using "1.IH" [OF fe refl refl pk [symmetric] tr] .
  moreover have "get_cell b i j = Inr 0" using first_empty_Some [OF fe] by simp
  ultimately show ?case using set_cell_same by fastforce
next
  case (2 pick b i j s)
  then show ?case by (simp add: try_nums.psimps)
next
  case (3 pick b i j num nums s)
  show ?case
  proof (cases "is_valid_move b i j num")
    case (Inl e)
    with "3.prems" "3.hyps" show ?thesis by (simp add: try_nums.psimps)
  next
    case (Inr ok)
    show ?thesis
    proof (cases ok)
      case False
      then have ok: "ok = False" by simp
      with Inr "3.prems" "3.hyps" have "try_nums pick b i j nums s = Inr (False, b', s')"
        by (simp add: try_nums.psimps)
      with "3.IH"(3) [OF Inr ok] show ?thesis by blast
    next
      case True
      then have ok: "ok = True" by simp
      from True Inr "3.prems" "3.hyps" obtain b1 b2 s2 b3 where
        st: "set_cell b i j num = Inr b1" and
        rc: "solve_search pick b1 s = Inr (False, b2, s2)" and
        rs: "set_cell b2 i j 0 = Inr b3" and
        tr: "try_nums pick b3 i j nums s2 = Inr (False, b', s')"
        by (auto simp: try_nums.psimps split: sum.splits bool.splits prod.splits)
      have "b2 = b1" using "3.IH"(1) [OF Inr ok st rc] .
      with rs st have b3: "set_cell b i j 0 = Inr b3" by (simp add: set_cell_twice)
      have "b' = b3 \<or> set_cell b3 i j 0 = Inr b'"
        using "3.IH"(2) [OF Inr ok st rc refl refl refl rs tr] by (simp add: \<open>b2 = b1\<close>)
      with b3 show ?thesis by (auto simp: set_cell_twice)
    qed
  qed
qed


lemma zeros_blank:
  assumes "get_cell b i j = Inr v"
  shows "zeros (b[i := (b ! i)[j := 0]]) + (if v = 0 then 1 else 0) = zeros b + 1"
  using assms zeros_update [of i b j 0] by (auto simp: get_cell_def split: if_splits)

lemma zeros_place:
  assumes "get_cell b i j = Inr v" "set_cell b i j num = Inr b1"
  shows "zeros b1 + (if v = 0 then 1 else 0) = zeros b + (if num = 0 then 1 else 0)"
  using assms zeros_update [of i b j num]
  by (auto simp: get_cell_def set_cell_def split: if_splits)

lemma get_after_set: "set_cell b i j v = Inr b1 \<Longrightarrow> get_cell b1 i j = Inr v"
  by (auto simp: get_cell_def set_cell_def split: if_splits)

lemma set_cell_eq: "set_cell b i j v = Inr b1 \<Longrightarrow> b1 = b[i := (b ! i)[j := v]]"
  by (auto simp: set_cell_def split: if_splits)

lemma blank_id: "get_cell b i j = Inr 0 \<Longrightarrow> b[i := (b ! i)[j := 0]] = b"
  by (rule set_cell_eq [OF set_cell_same, symmetric])

termination solve_search
proof (relation "inv_image (less_than <*lex*> less_than <*lex*> less_than)
     (\<lambda>x. case x of
        Inl (pick, b, s) \<Rightarrow> (zeros b, 1::nat, 0::nat)
      | Inr (pick, b, i, j, nums, s) \<Rightarrow>
          (zeros (b[i := (b ! i)[j := 0]]), if get_cell b i j = Inr 0 then 0 else 2, length nums))",
    goal_cases)
  case 1
  show ?case by (intro wf_inv_image wf_lex_prod wf_less_than)
next
  case (2 pick b s r p i j nums s1)
  then have g: "get_cell b i j = Inr 0" using first_empty_Some by simp
  then have "b[i := (b ! i)[j := 0]] = b" by (rule blank_id)
  with g show ?case by simp
next
  case (3 pick b i j num nums s ok b1)
  then have "is_valid_move b i j num = Inr True" by simp
  then obtain v where v: "get_cell b i j = Inr v" "v \<noteq> num"
    using valid_move_cell by blast
  have z1: "zeros (b[i := (b ! i)[j := 0]]) + (if v = 0 then 1 else 0) = zeros b + 1"
    using v(1) by (rule zeros_blank)
  have z2: "zeros b1 + (if v = 0 then 1 else 0) = zeros b + (if num = 0 then 1 else 0)"
    using v(1) 3(3) by (rule zeros_place)
  show ?case
  proof (cases "v = 0")
    case True
    with v(2) z1 z2 have "zeros b1 < zeros (b[i := (b ! i)[j := 0]])" by simp
    then show ?thesis by simp
  next
    case False
    with z1 z2 have "zeros b1 \<le> zeros (b[i := (b ! i)[j := 0]])" by (simp split: if_splits)
    moreover have "get_cell b i j \<noteq> Inr 0" using v(1) False by simp
    ultimately show ?thesis by auto
  qed
next
  case (4 pick b i j num nums s ok b1 r x y b2 s2 b3)
  then have rc: "solve_search pick b1 s = Inr (False, b2, s2)" by auto
  have dom: "solve_search_try_nums_dom (Inl (pick, b1, s))" using 4 by simp
  have "b2 = b1" using dom rc by (rule search_restores(1))
  moreover have "set_cell b i j num = Inr b1" "set_cell b2 i j 0 = Inr b3" using 4 by simp_all
  ultimately have b3: "set_cell b i j 0 = Inr b3" by (simp add: set_cell_twice)
  have g3: "get_cell b3 i j = Inr 0" using b3 by (rule get_after_set)
  then have "b3[i := (b3 ! i)[j := 0]] = b3" by (rule blank_id)
  moreover have "b3 = b[i := (b ! i)[j := 0]]" using b3 by (rule set_cell_eq)
  ultimately have "zeros (b3[i := (b3 ! i)[j := 0]]) = zeros (b[i := (b ! i)[j := 0]])"
    by metis
  then show ?case using g3 by simp
next
  case (5 pick b i j num nums s ok)
  then show ?case by simp
qed


section \<open>The solution counter\<close>

text \<open>
  \<open>count\<close> is the one-element list that \<open>solve_count\<close> increments; the model threads
  its content together with the board.
\<close>

function (domintros) solve_count :: "board \<Rightarrow> int \<Rightarrow> py_error + (board \<times> int)"
  and count_nums :: "board \<Rightarrow> nat \<Rightarrow> nat \<Rightarrow> int list \<Rightarrow> int \<Rightarrow> py_error + (board \<times> int)"
where
  "solve_count b cnt =
     (if cnt > 1 then Inr (b, cnt)
      else case first_empty b all_cells of
             Inl e \<Rightarrow> Inl e
           | Inr None \<Rightarrow> Inr (b, cnt + 1)
           | Inr (Some (i, j)) \<Rightarrow> count_nums b i j [1..9] cnt)"
| "count_nums b i j [] cnt = Inr (b, cnt)"
| "count_nums b i j (num # nums) cnt =
     (case is_valid_move b i j num of
        Inl e \<Rightarrow> Inl e
      | Inr False \<Rightarrow> count_nums b i j nums cnt
      | Inr True \<Rightarrow>
          (case set_cell b i j num of
             Inl e \<Rightarrow> Inl e
           | Inr b1 \<Rightarrow>
               (case solve_count b1 cnt of
                  Inl e \<Rightarrow> Inl e
                | Inr (b2, cnt2) \<Rightarrow>
                    (case set_cell b2 i j 0 of
                       Inl e \<Rightarrow> Inl e
                     | Inr b3 \<Rightarrow> count_nums b3 i j nums cnt2))))"
  by pat_completeness auto

lemma count_restores:
  "solve_count_count_nums_dom (Inl (b, cnt)) \<Longrightarrow>
     solve_count b cnt = Inr (b', cnt') \<Longrightarrow> b' = b"
  "solve_count_count_nums_dom (Inr (b, i, j, nums, cnt)) \<Longrightarrow>
     count_nums b i j nums cnt = Inr (b', cnt') \<Longrightarrow>
     b' = b \<or> set_cell b i j 0 = Inr b'"
proof (induction b cnt and b i j nums cnt arbitrary: b' cnt' and b' cnt'
       rule: solve_count_count_nums.pinduct)
  case (1 b cnt)
  show ?case
  proof (cases "cnt > 1")
    case True
    with "1.prems" "1.hyps" show ?thesis by (simp add: solve_count.psimps)
  next
    case False
    show ?thesis
    proof (cases "first_empty b all_cells")
      case (Inl e)
      with False "1.prems" "1.hyps" show ?thesis by (simp add: solve_count.psimps)
    next
      case (Inr r)
      show ?thesis
      proof (cases r)
        case None
        with Inr False "1.prems" "1.hyps" show ?thesis by (simp add: solve_count.psimps)
      next
        case (Some p)
        obtain i j where p: "p = (i, j)" by (cases p)
        from Some p Inr have fe: "first_empty b all_cells = Inr (Some (i, j))" by simp
        with False "1.prems" "1.hyps" have
          tr: "count_nums b i j [1..9] cnt = Inr (b', cnt')"
          by (simp add: solve_count.psimps)
        have "b' = b \<or> set_cell b i j 0 = Inr b'"
          using "1.IH" [OF False Inr Some p [symmetric] tr] .
        moreover have "get_cell b i j = Inr 0" using first_empty_Some [OF fe] by simp
        ultimately show ?thesis using set_cell_same by fastforce
      qed
    qed
  qed
next
  case (2 b i j cnt)
  then show ?case by (simp add: count_nums.psimps)
next
  case (3 b i j num nums cnt)
  show ?case
  proof (cases "is_valid_move b i j num")
    case (Inl e)
    with "3.prems" "3.hyps" show ?thesis by (simp add: count_nums.psimps)
  next
    case (Inr ok)
    show ?thesis
    proof (cases ok)
      case False
      then have ok: "ok = False" by simp
      with Inr "3.prems" "3.hyps" have "count_nums b i j nums cnt = Inr (b', cnt')"
        by (simp add: count_nums.psimps)
      with "3.IH"(3) [OF Inr ok] show ?thesis by blast
    next
      case True
      then have ok: "ok = True" by simp
      from True Inr "3.prems" "3.hyps" obtain b1 b2 c2 b3 where
        st: "set_cell b i j num = Inr b1" and
        rc: "solve_count b1 cnt = Inr (b2, c2)" and
        rs: "set_cell b2 i j 0 = Inr b3" and
        tr: "count_nums b3 i j nums c2 = Inr (b', cnt')"
        by (auto simp: count_nums.psimps split: sum.splits prod.splits)
      have "b2 = b1" using "3.IH"(1) [OF Inr ok st rc] .
      with rs st have b3: "set_cell b i j 0 = Inr b3" by (simp add: set_cell_twice)
      have "b' = b3 \<or> set_cell b3 i j 0 = Inr b'"
        using "3.IH"(2) [OF Inr ok st rc refl rs tr] .
      with b3 show ?thesis by (auto simp: set_cell_twice)
    qed
  qed
qed

termination solve_count
proof (relation "inv_image (less_than <*lex*> less_than <*lex*> less_than)
     (\<lambda>x. case x of
        Inl (b, cnt) \<Rightarrow> (zeros b, 1::nat, 0::nat)
      | Inr (b, i, j, nums, cnt) \<Rightarrow>
          (zeros (b[i := (b ! i)[j := 0]]), if get_cell b i j = Inr 0 then 0 else 2, length nums))",
    goal_cases)
  case 1
  show ?case by (intro wf_inv_image wf_lex_prod wf_less_than)
next
  case (2 b cnt r p i j)
  then have g: "get_cell b i j = Inr 0" using first_empty_Some by simp
  then have "b[i := (b ! i)[j := 0]] = b" by (rule blank_id)
  with g show ?case by simp
next
  case (3 b i j num nums cnt ok b1)
  then have "is_valid_move b i j num = Inr True" by simp
  then obtain v where v: "get_cell b i j = Inr v" "v \<noteq> num"
    using valid_move_cell by blast
  have z1: "zeros (b[i := (b ! i)[j := 0]]) + (if v = 0 then 1 else 0) = zeros b + 1"
    using v(1) by (rule zeros_blank)
  have z2: "zeros b1 + (if v = 0 then 1 else 0) = zeros b + (if num = 0 then 1 else 0)"
    using v(1) 3(3) by (rule zeros_place)
  show ?case
  proof (cases "v = 0")
    case True
    with v(2) z1 z2 have "zeros b1 < zeros (b[i := (b ! i)[j := 0]])" by simp
    then show ?thesis by simp
  next
    case False
    with z1 z2 have "zeros b1 \<le> zeros (b[i := (b ! i)[j := 0]])" by (simp split: if_splits)
    moreover have "get_cell b i j \<noteq> Inr 0" using v(1) False by simp
    ultimately show ?thesis by auto
  qed
next
  case (4 b i j num nums cnt ok b1 r b2 c2 b3)
  then have rc: "solve_count b1 cnt = Inr (b2, c2)" by auto
  have dom: "solve_count_count_nums_dom (Inl (b1, cnt))" using 4 by simp
  have "b2 = b1" using dom rc by (rule count_restores(1))
  moreover have "set_cell b i j num = Inr b1" "set_cell b2 i j 0 = Inr b3" using 4 by simp_all
  ultimately have b3: "set_cell b i j 0 = Inr b3" by (simp add: set_cell_twice)
  have g3: "get_cell b3 i j = Inr 0" using b3 by (rule get_after_set)
  then have "b3[i := (b3 ! i)[j := 0]] = b3" by (rule blank_id)
  moreover have "b3 = b[i := (b ! i)[j := 0]]" using b3 by (rule set_cell_eq)
  ultimately have "zeros (b3[i := (b3 ! i)[j := 0]]) = zeros (b[i := (b ! i)[j := 0]])"
    by metis
  then show ?case using g3 by simp
next
  case (5 b i j num nums cnt ok)
  then show ?case by simp
qed

definition count_solutions :: "board \<Rightarrow> py_error + (board \<times> int)" where
  "count_solutions b = solve_count b 0"


section \<open>What the claims speak of\<close>

definition wf_board :: "board \<Rightarrow> bool" where
  "wf_board b = (length b = 9 \<and> (\<forall>r \<in> set b. length r = 9))"

definition cell :: "board \<Rightarrow> nat \<times> nat \<Rightarrow> int" where
  "cell b p = b ! fst p ! snd p"

definition same_unit :: "nat \<times> nat \<Rightarrow> nat \<times> nat \<Rightarrow> bool" where
  "same_unit p q =
     (fst p = fst q \<or> snd p = snd q \<or>
      (fst p div 3 = fst q div 3 \<and> snd p div 3 = snd q div 3))"

definition peers :: "nat \<times> nat \<Rightarrow> (nat \<times> nat) list" where
  "peers p = filter (\<lambda>q. q \<noteq> p \<and> same_unit p q) all_cells"

lemma in_all_cells: "(i, j) \<in> set all_cells \<longleftrightarrow> i < 9 \<and> j < 9"
  by (auto simp: all_cells_def image_iff)

lemma get_cell_wf:
  "wf_board b \<Longrightarrow> i < 9 \<Longrightarrow> j < 9 \<Longrightarrow> get_cell b i j = Inr (cell b (i, j))"
  by (simp add: wf_board_def get_cell_def cell_def)

lemma set_cell_wf:
  "wf_board b \<Longrightarrow> i < 9 \<Longrightarrow> j < 9 \<Longrightarrow> set_cell b i j v = Inr (b[i := (b ! i)[j := v]])"
  by (simp add: wf_board_def set_cell_def)

lemma wf_board_update: "wf_board b \<Longrightarrow> wf_board (b[i := (b ! i)[j := v]])"
proof (cases "i < length b")
  case True
  assume wf: "wf_board b"
  have "set (b[i := (b ! i)[j := v]]) \<subseteq> insert ((b ! i)[j := v]) (set b)"
    by (rule set_update_subset_insert)
  moreover have "length ((b ! i)[j := v]) = 9" using wf True by (simp add: wf_board_def)
  ultimately show ?thesis using wf by (auto simp: wf_board_def)
next
  case False
  assume "wf_board b"
  moreover from False have "b[i := (b ! i)[j := v]] = b" by (simp add: list_update_beyond)
  ultimately show ?thesis by simp
qed

lemma cell_update:
  "wf_board b \<Longrightarrow> i < 9 \<Longrightarrow> j < 9 \<Longrightarrow>
   cell (b[i := (b ! i)[j := v]]) q = (if q = (i, j) then v else cell b q)"
  by (cases q) (auto simp: wf_board_def cell_def nth_list_update)

lemma in_row_cells: "(r, c) \<in> set (row_cells i) \<longleftrightarrow> r = i \<and> c < 9"
  by (auto simp: row_cells_def)

lemma in_col_cells: "(r, c) \<in> set (col_cells j) \<longleftrightarrow> c = j \<and> r < 9"
  by (auto simp: col_cells_def)

lemma box_start: "(i::nat) - i mod 3 = 3 * (i div 3)"
  by (simp add: minus_mod_eq_mult_div)

lemma div3_less: "x div 3 < 3 \<longleftrightarrow> x < (9::nat)"
  by (simp add: div_less_iff_less_mult)

lemma in_box_cells:
  "(r, c) \<in> set (box_cells i j) \<longleftrightarrow> r div 3 = i div 3 \<and> c div 3 = j div 3"
proof -
  have *: "(\<exists>k<3. x = k + 3 * (i div 3)) \<longleftrightarrow> x div 3 = i div 3" for x i :: nat
  proof
    assume "\<exists>k<3. x = k + 3 * (i div 3)"
    then show "x div 3 = i div 3" by auto
  next
    assume "x div 3 = i div 3"
    then have "x mod 3 < 3 \<and> x = x mod 3 + 3 * (i div 3)"
      using mod_mult_div_eq [of x 3] by simp
    then show "\<exists>k<3. x = k + 3 * (i div 3)" by blast
  qed
  have "(r, c) \<in> set (box_cells i j) \<longleftrightarrow>
        (\<exists>k<3. r = k + 3 * (i div 3)) \<and> (\<exists>k<3. c = k + 3 * (j div 3))"
    by (auto simp: box_cells_def Let_def box_start image_iff)
  then show ?thesis by (simp add: *)
qed

definition unit_cells :: "nat \<Rightarrow> nat \<Rightarrow> (nat \<times> nat) list" where
  "unit_cells i j = row_cells i @ col_cells j @ box_cells i j"

lemma in_unit_cells:
  assumes "i < 9" "j < 9"
  shows "q \<in> set (unit_cells i j) \<longleftrightarrow> q \<in> set all_cells \<and> same_unit (i, j) q"
proof (cases q)
  case (Pair r c)
  have "r div 3 = i div 3 \<Longrightarrow> r < 9" "c div 3 = j div 3 \<Longrightarrow> c < 9"
    using assms div3_less [of i] div3_less [of j] div3_less [of r] div3_less [of c] by simp_all
  then show ?thesis
    unfolding Pair unit_cells_def
    by (auto simp: in_row_cells in_col_cells in_box_cells in_all_cells same_unit_def assms)
qed

lemma contains_num_wf:
  "wf_board b \<Longrightarrow> set cs \<subseteq> set all_cells \<Longrightarrow>
   contains_num b cs num = Inr (\<exists>q \<in> set cs. cell b q = num)"
proof (induction b cs num rule: contains_num.induct)
  case (1 b num)
  then show ?case by simp
next
  case (2 b r c cs num)
  then have "r < 9" "c < 9" by (simp_all add: in_all_cells)
  with 2 show ?case by (auto simp: get_cell_wf)
qed

lemma is_valid_move_wf:
  assumes "wf_board b" "i < 9" "j < 9"
  shows "is_valid_move b i j num = Inr (\<forall>q \<in> set (unit_cells i j). cell b q \<noteq> num)"
proof -
  have sub: "set (row_cells i) \<subseteq> set all_cells" "set (col_cells j) \<subseteq> set all_cells"
    "set (box_cells i j) \<subseteq> set all_cells"
    using in_unit_cells [OF assms(2,3)] by (auto simp: unit_cells_def)
  show ?thesis
    unfolding is_valid_move_def
    by (auto simp: contains_num_wf [OF assms(1)] sub unit_cells_def split: bool.splits)
qed

lemma same_unit_sym: "same_unit p q \<longleftrightarrow> same_unit q p"
  by (auto simp: same_unit_def)

lemma in_peers: "q \<in> set (peers p) \<longleftrightarrow> q \<in> set all_cells \<and> q \<noteq> p \<and> same_unit p q"
  by (auto simp: peers_def)

lemma first_empty_wf:
  "wf_board b \<Longrightarrow> set cs \<subseteq> set all_cells \<Longrightarrow>
   first_empty b cs = Inr (find (\<lambda>q. cell b q = 0) cs)"
proof (induction b cs rule: first_empty.induct)
  case (1 b)
  then show ?case by simp
next
  case (2 b i j cs)
  then have "i < 9" "j < 9" by (simp_all add: in_all_cells)
  with 2 show ?case by (auto simp: get_cell_wf)
qed


text \<open>
  What the search can end in, whatever the givens: a full board that keeps every given and
  whose every filled-in cell holds a digit 1 to 9 that none of its peers holds.
\<close>

definition reach :: "board \<Rightarrow> board \<Rightarrow> bool" where
  "reach b g =
     (wf_board g \<and>
      (\<forall>p \<in> set all_cells.
         if cell b p \<noteq> 0 then cell g p = cell b p
         else 1 \<le> cell g p \<and> cell g p \<le> 9 \<and> (\<forall>q \<in> set (peers p). cell g q \<noteq> cell g p)))"

lemma board_eqI:
  assumes "wf_board b" "wf_board g" "\<And>p. p \<in> set all_cells \<Longrightarrow> cell g p = cell b p"
  shows "g = b"
proof (rule nth_equalityI)
  show "length g = length b" using assms by (simp add: wf_board_def)
next
  fix i assume "i < length g"
  then have i: "i < 9" using assms(2) by (simp add: wf_board_def)
  show "g ! i = b ! i"
  proof (rule nth_equalityI)
    show "length (g ! i) = length (b ! i)" using assms(1,2) i by (simp add: wf_board_def)
  next
    fix j assume "j < length (g ! i)"
    then have "j < 9" using assms(2) i by (simp add: wf_board_def)
    with i have "(i, j) \<in> set all_cells" by (simp add: in_all_cells)
    from assms(3) [OF this] show "g ! i ! j = b ! i ! j" by (simp add: cell_def)
  qed
qed

lemma reach_full:
  assumes "wf_board b" "\<forall>p \<in> set all_cells. cell b p \<noteq> 0"
  shows "reach b g \<longleftrightarrow> g = b"
proof
  assume "reach b g"
  then have "wf_board g" "\<And>p. p \<in> set all_cells \<Longrightarrow> cell g p = cell b p"
    using assms(2) by (auto simp: reach_def)
  with assms(1) show "g = b" by (intro board_eqI)
next
  assume "g = b"
  with assms show "reach b g" by (simp add: reach_def)
qed

lemma reach_step:
  assumes wf: "wf_board b" and ij: "i < 9" "j < 9" and z: "cell b (i, j) = 0"
    and n: "1 \<le> n" "n \<le> 9"
  shows "reach b g \<and> cell g (i, j) = n \<longleftrightarrow>
         (\<forall>q \<in> set (unit_cells i j). cell b q \<noteq> n) \<and> reach (b[i := (b ! i)[j := n]]) g"
    (is "?L \<longleftrightarrow> ?V \<and> ?R")
proof -
  let ?b1 = "b[i := (b ! i)[j := n]]"
  have c1: "cell ?b1 q = (if q = (i, j) then n else cell b q)" for q
    using wf ij by (rule cell_update)
  have p: "(i, j) \<in> set all_cells" using ij by (simp add: in_all_cells)
  show ?thesis
  proof
    assume L: ?L
    then have wfg: "wf_board g" and gn: "cell g (i, j) = n" by (simp_all add: reach_def)
    from L have all: "\<And>p. p \<in> set all_cells \<Longrightarrow>
        (if cell b p \<noteq> 0 then cell g p = cell b p
         else 1 \<le> cell g p \<and> cell g p \<le> 9 \<and> (\<forall>q \<in> set (peers p). cell g q \<noteq> cell g p))"
      by (simp add: reach_def)
    from all [OF p] z gn have pe: "\<And>q. q \<in> set (peers (i, j)) \<Longrightarrow> cell g q \<noteq> n" by simp
    have ?V
    proof
      fix q assume "q \<in> set (unit_cells i j)"
      then have q: "q \<in> set all_cells" "same_unit (i, j) q"
        using in_unit_cells [OF ij] by simp_all
      show "cell b q \<noteq> n"
      proof (cases "q = (i, j)")
        case True
        with z n show ?thesis by simp
      next
        case False
        with q have "q \<in> set (peers (i, j))" by (simp add: in_peers)
        then have "cell g q \<noteq> n" by (rule pe)
        with all [OF q(1)] n show ?thesis by (auto split: if_splits)
      qed
    qed
    moreover have ?R
      unfolding reach_def
    proof (intro conjI ballI)
      show "wf_board g" by (rule wfg)
    next
      fix q assume q: "q \<in> set all_cells"
      show "if cell ?b1 q \<noteq> 0 then cell g q = cell ?b1 q
            else 1 \<le> cell g q \<and> cell g q \<le> 9 \<and> (\<forall>r \<in> set (peers q). cell g r \<noteq> cell g q)"
        using all [OF q] gn n by (auto simp: c1 split: if_splits)
    qed
    ultimately show "?V \<and> ?R" ..
  next
    assume VR: "?V \<and> ?R"
    then have V: "\<And>q. q \<in> set (unit_cells i j) \<Longrightarrow> cell b q \<noteq> n" by simp
    from VR have wfg: "wf_board g" by (simp add: reach_def)
    from VR have all: "\<And>p. p \<in> set all_cells \<Longrightarrow>
        (if cell ?b1 p \<noteq> 0 then cell g p = cell ?b1 p
         else 1 \<le> cell g p \<and> cell g p \<le> 9 \<and> (\<forall>q \<in> set (peers p). cell g q \<noteq> cell g p))"
      by (simp add: reach_def)
    from all [OF p] n have gn: "cell g (i, j) = n" by (simp add: c1)
    have "reach b g"
      unfolding reach_def
    proof (intro conjI ballI)
      show "wf_board g" by (rule wfg)
    next
      fix q assume q: "q \<in> set all_cells"
      show "if cell b q \<noteq> 0 then cell g q = cell b q
            else 1 \<le> cell g q \<and> cell g q \<le> 9 \<and> (\<forall>r \<in> set (peers q). cell g r \<noteq> cell g q)"
      proof (cases "q = (i, j)")
        case False
        with all [OF q] show ?thesis by (simp add: c1)
      next
        case True
        have "cell g r \<noteq> n" if r: "r \<in> set (peers (i, j))" for r
        proof -
          from r have r': "r \<in> set all_cells" "r \<noteq> (i, j)" "same_unit (i, j) r"
            by (simp_all add: in_peers)
          then have "r \<in> set (unit_cells i j)" using in_unit_cells [OF ij] by simp
          then have bn: "cell b r \<noteq> n" by (rule V)
          show ?thesis
          proof (cases "cell b r = 0")
            case False
            with all [OF r'(1)] r'(2) bn show ?thesis by (simp add: c1)
          next
            case True
            with all [OF r'(1)] r'(2) have "\<forall>q \<in> set (peers r). cell g q \<noteq> cell g r"
              by (simp add: c1)
            moreover have "(i, j) \<in> set (peers r)"
              using r' p same_unit_sym [of r "(i, j)"] by (simp add: in_peers)
            ultimately show ?thesis using gn by fastforce
          qed
        qed
        with True z gn n show ?thesis by simp
      qed
    qed
    with gn show ?L by simp
  qed
qed


lemma first_empty_None_wf:
  assumes "wf_board b" "first_empty b all_cells = Inr None"
  shows "\<forall>p \<in> set all_cells. cell b p \<noteq> 0"
  using assms first_empty_wf [of b all_cells] by (auto simp: find_None_iff)

lemma first_empty_Some_wf:
  assumes "wf_board b" "first_empty b all_cells = Inr (Some (i, j))"
  shows "i < 9 \<and> j < 9 \<and> cell b (i, j) = 0"
proof -
  from first_empty_Some [OF assms(2)] have g: "get_cell b i j = Inr 0" and
    "(i, j) \<in> set all_cells" by simp_all
  then have ij: "i < 9" "j < 9" by (simp_all add: in_all_cells)
  with g assms(1) show ?thesis by (simp add: get_cell_wf)
qed

lemma first_empty_total:
  "wf_board b \<Longrightarrow> \<exists>r. first_empty b all_cells = Inr r"
  using first_empty_wf [of b all_cells] by simp

definition search_post :: "board \<Rightarrow> bool \<times> board \<times> 'r \<Rightarrow> bool" where
  "search_post b r =
     (case r of (ok, g, s') \<Rightarrow> if ok then reach b g else g = b \<and> (\<forall>g'. \<not> reach b g'))"

definition try_post :: "board \<Rightarrow> nat \<Rightarrow> nat \<Rightarrow> int list \<Rightarrow> bool \<times> board \<times> 'r \<Rightarrow> bool" where
  "try_post b i j nums r =
     (case r of (ok, g, s') \<Rightarrow>
        if ok then reach b g
        else g = b \<and> (\<forall>g'. reach b g' \<longrightarrow> cell g' (i, j) \<notin> set nums))"

lemma search_correct:
  "(\<And>s. set (fst (pick s)) = {1..9}) \<Longrightarrow> wf_board b \<Longrightarrow>
     \<exists>r. solve_search pick b s = Inr r \<and> search_post b r"
  "(\<And>s. set (fst (pick s)) = {1..9}) \<Longrightarrow> wf_board b \<Longrightarrow> i < 9 \<Longrightarrow> j < 9 \<Longrightarrow>
     cell b (i, j) = 0 \<Longrightarrow> set nums \<subseteq> {1..9} \<Longrightarrow>
     \<exists>r. try_nums pick b i j nums s = Inr r \<and> try_post b i j nums r"
proof (induction pick b s and pick b i j nums s rule: solve_search_try_nums.induct)
  case (1 pick b s)
  from first_empty_total [OF "1.prems"(2)] obtain fe where fe: "first_empty b all_cells = Inr fe"
    by blast
  show ?case
  proof (cases fe)
    case None
    with fe have full: "\<forall>p \<in> set all_cells. cell b p \<noteq> 0"
      using first_empty_None_wf "1.prems"(2) by simp
    have "solve_search pick b s = Inr (True, b, s)" using fe None by simp
    moreover have "reach b b" using reach_full [OF "1.prems"(2) full] by simp
    ultimately show ?thesis by (simp add: search_post_def)
  next
    case (Some p)
    obtain i j where p: "p = (i, j)" by (cases p)
    obtain nums s1 where pk: "pick s = (nums, s1)" by (cases "pick s")
    from fe Some p have fe': "first_empty b all_cells = Inr (Some (i, j))" by simp
    from first_empty_Some_wf [OF "1.prems"(2) fe'] have ij: "i < 9" "j < 9" "cell b (i, j) = 0"
      by simp_all
    have nums: "set nums = {1..9}" using "1.prems"(1) [of s] pk by simp
    then have sub: "set nums \<subseteq> {1..9}" by simp
    from "1.IH" [OF fe Some p [symmetric] pk [symmetric] "1.prems"(1) "1.prems"(2) ij sub]
    obtain r where r: "try_nums pick b i j nums s1 = Inr r" "try_post b i j nums r" by blast
    have eq: "solve_search pick b s = Inr r" using fe' pk r(1) by simp
    obtain ok g s' where rr: "r = (ok, g, s')" by (cases r)
    have "search_post b r"
    proof (cases ok)
      case True
      with r(2) rr show ?thesis by (simp add: try_post_def search_post_def)
    next
      case False
      with r(2) rr have gb: "g = b" and no: "\<And>g'. reach b g' \<Longrightarrow> cell g' (i, j) \<notin> set nums"
        by (simp_all add: try_post_def)
      have "\<not> reach b g'" for g'
      proof
        assume re: "reach b g'"
        then have "1 \<le> cell g' (i, j) \<and> cell g' (i, j) \<le> 9"
          using ij by (auto simp: reach_def in_all_cells)
        then have "cell g' (i, j) \<in> set nums" using nums by simp
        with no [OF re] show False by simp
      qed
      with gb False rr show ?thesis by (simp add: search_post_def)
    qed
    with eq show ?thesis by blast
  qed
next
  case (2 pick b i j s)
  then show ?case by (simp add: try_post_def)
next
  case (3 pick b i j num nums s)
  note wf = "3.prems"(2) and ij = "3.prems"(3,4) and z = "3.prems"(5)
  from "3.prems"(6) have n: "1 \<le> num" "num \<le> 9" and sub: "set nums \<subseteq> {1..9}" by simp_all
  let ?ok = "\<forall>q \<in> set (unit_cells i j). cell b q \<noteq> num"
  let ?b1 = "b[i := (b ! i)[j := num]]"
  have valid: "is_valid_move b i j num = Inr ?ok" using wf ij by (rule is_valid_move_wf)
  have step: "reach b g \<and> cell g (i, j) = num \<longleftrightarrow> ?ok \<and> reach ?b1 g" for g
    using wf ij z n by (rule reach_step)
  show ?case
  proof (cases "?ok")
    case False
    from valid False have v: "is_valid_move b i j num = Inr False" by simp
    from "3.IH"(3) [OF v refl "3.prems"(1) wf ij z sub]
    obtain r where r: "try_nums pick b i j nums s = Inr r" "try_post b i j nums r" by blast
    have eq: "try_nums pick b i j (num # nums) s = Inr r" using v r(1) by simp
    have "try_post b i j (num # nums) r"
      using r(2) step False by (auto simp: try_post_def split: prod.splits if_splits)
    with eq show ?thesis by blast
  next
    case True
    note okv = True
    from valid True have v: "is_valid_move b i j num = Inr True" by simp
    have st: "set_cell b i j num = Inr ?b1" using wf ij by (rule set_cell_wf)
    have wf1: "wf_board ?b1" using wf by (rule wf_board_update)
    from "3.IH"(1) [OF v refl st "3.prems"(1) wf1]
    obtain r1 where r1: "solve_search pick ?b1 s = Inr r1" "search_post ?b1 r1" by blast
    obtain ok g s2 where rr: "r1 = (ok, g, s2)" by (cases r1)
    show ?thesis
    proof (cases ok)
      case True
      with r1 rr have "reach ?b1 g" by (simp add: search_post_def)
      with step okv have "reach b g" by blast
      moreover have "try_nums pick b i j (num # nums) s = Inr (True, g, s2)"
        using v st r1(1) rr True by simp
      ultimately show ?thesis by (simp add: try_post_def)
    next
      case False
      with r1 rr have g: "g = ?b1" and no: "\<And>g'. \<not> reach ?b1 g'"
        by (simp_all add: search_post_def)
      have c1: "cell ?b1 (i, j) = num" using wf ij by (simp add: cell_update)
      have rb: "set_cell ?b1 i j 0 = Inr b"
      proof -
        have "set_cell ?b1 i j 0 = set_cell b i j 0" using st by (rule set_cell_twice)
        also have "\<dots> = Inr b" using wf ij z by (intro set_cell_same) (simp add: get_cell_wf)
        finally show ?thesis .
      qed
      from "3.IH"(2) [OF v refl st, of r1 ok "(g, s2)" g s2 b] r1(1) rr False g rb
        "3.prems"(1) wf ij z sub
      obtain r where r: "try_nums pick b i j nums s2 = Inr r" "try_post b i j nums r" by blast
      have eq: "try_nums pick b i j (num # nums) s = Inr r"
        using v st r1(1) rr False g rb r(1) by simp
      have "try_post b i j (num # nums) r"
        using r(2) step no by (auto simp: try_post_def split: prod.splits if_splits)
      with eq show ?thesis by blast
    qed
  qed
qed


definition capped :: "int \<Rightarrow> nat \<Rightarrow> int" where
  "capped c n = (if c > 1 then c else min 2 (c + int n))"

lemma capped_capped: "capped (capped c m) n = capped c (m + n)"
  by (auto simp: capped_def min_def)

lemma finite_reach: "finite {g. reach b g}"
proof -
  let ?A = "{1..9} \<union> cell b ` set all_cells"
  let ?R = "{r. set r \<subseteq> ?A \<and> length r = 9}"
  have finR: "finite ?R" by (intro finite_lists_length_eq) simp
  have "{g. reach b g} \<subseteq> {g. set g \<subseteq> ?R \<and> length g = 9}"
  proof
    fix g assume "g \<in> {g. reach b g}"
    then have re: "reach b g" by simp
    then have wfg: "wf_board g" by (simp add: reach_def)
    have "r \<in> ?R" if r: "r \<in> set g" for r
    proof -
      from r obtain i where i: "i < 9" "r = g ! i"
        using wfg by (auto simp: in_set_conv_nth wf_board_def)
      have len: "length r = 9" using r wfg by (simp add: wf_board_def)
      have "v \<in> ?A" if "v \<in> set r" for v
      proof -
        from that len obtain j where j: "j < 9" "v = r ! j" by (auto simp: in_set_conv_nth)
        with i have v: "v = cell g (i, j)" by (simp add: cell_def)
        have p: "(i, j) \<in> set all_cells" using i j by (simp add: in_all_cells)
        show ?thesis
        proof (cases "cell b (i, j) = 0")
          case True
          with re p v show ?thesis by (auto simp: reach_def)
        next
          case False
          with re p v have vb: "v = cell b (i, j)" by (auto simp: reach_def)
          with p show ?thesis by blast
        qed
      qed
      then have "set r \<subseteq> ?A" by (rule subsetI)
      with len show ?thesis by simp
    qed
    with wfg show "g \<in> {g. set g \<subseteq> ?R \<and> length g = 9}" by (auto simp: wf_board_def)
  qed
  moreover have "finite {g. set g \<subseteq> ?R \<and> length g = 9}"
    using finR by (rule finite_lists_length_eq)
  ultimately show ?thesis by (rule finite_subset)
qed


lemma card_reach_split:
  assumes "num \<notin> set nums"
  shows "card {g. reach b g \<and> cell g p \<in> set (num # nums)} =
         card {g. reach b g \<and> cell g p = num} + card {g. reach b g \<and> cell g p \<in> set nums}"
proof -
  have "{g. reach b g \<and> cell g p \<in> set (num # nums)} =
        {g. reach b g \<and> cell g p = num} \<union> {g. reach b g \<and> cell g p \<in> set nums}"
    by auto
  moreover have "{g. reach b g \<and> cell g p = num} \<inter> {g. reach b g \<and> cell g p \<in> set nums} = {}"
    using assms by auto
  moreover have "finite {g. reach b g \<and> cell g p = num}"
    "finite {g. reach b g \<and> cell g p \<in> set nums}"
    using finite_reach [of b] by simp_all
  ultimately show ?thesis by (simp add: card_Un_disjoint)
qed

lemma count_correct:
  "wf_board b \<Longrightarrow> solve_count b cnt = Inr (b, capped cnt (card {g. reach b g}))"
  "wf_board b \<Longrightarrow> i < 9 \<Longrightarrow> j < 9 \<Longrightarrow> cell b (i, j) = 0 \<Longrightarrow>
     set nums \<subseteq> {1..9} \<Longrightarrow> distinct nums \<Longrightarrow>
     count_nums b i j nums cnt =
       Inr (b, capped cnt (card {g. reach b g \<and> cell g (i, j) \<in> set nums}))"
proof (induction b cnt and b i j nums cnt rule: solve_count_count_nums.induct)
  case (1 b cnt)
  note wf = "1.prems"
  show ?case
  proof (cases "cnt > 1")
    case True
    then show ?thesis by (simp add: capped_def)
  next
    case small: False
    from first_empty_total [OF wf] obtain fe where fe: "first_empty b all_cells = Inr fe"
      by blast
    show ?thesis
    proof (cases fe)
      case None
      with fe have full: "\<forall>p \<in> set all_cells. cell b p \<noteq> 0"
        using first_empty_None_wf wf by simp
      have "{g. reach b g} = {b}" using reach_full [OF wf full] by auto
      then have "capped cnt (card {g. reach b g}) = cnt + 1"
        using small by (simp add: capped_def)
      moreover have "solve_count b cnt = Inr (b, cnt + 1)" using fe None small by simp
      ultimately show ?thesis by simp
    next
      case (Some p)
      obtain i j where p: "p = (i, j)" by (cases p)
      from fe Some p have fe': "first_empty b all_cells = Inr (Some (i, j))" by simp
      from first_empty_Some_wf [OF wf fe'] have ij: "i < 9" "j < 9" "cell b (i, j) = 0"
        by simp_all
      have nums: "set [1..9] \<subseteq> {1..9::int}" "distinct [1..9::int]" by simp_all
      have "count_nums b i j [1..9] cnt =
              Inr (b, capped cnt (card {g. reach b g \<and> cell g (i, j) \<in> set [1..9]}))"
        using "1.IH" [OF small fe Some p [symmetric] wf ij nums] .
      moreover have "{g. reach b g \<and> cell g (i, j) \<in> set [1..9]} = {g. reach b g}"
        using ij by (auto simp: reach_def in_all_cells)
      moreover have "solve_count b cnt = count_nums b i j [1..9] cnt"
        using fe' small by simp
      ultimately show ?thesis by simp
    qed
  qed
next
  case (2 b i j cnt)
  then show ?case by (simp add: capped_def)
next
  case (3 b i j num nums cnt)
  note wf = "3.prems"(1) and ij = "3.prems"(2,3) and z = "3.prems"(4)
  from "3.prems"(5,6) have n: "1 \<le> num" "num \<le> 9" and sub: "set nums \<subseteq> {1..9}"
    and dist: "distinct nums" and fresh: "num \<notin> set nums" by simp_all
  let ?ok = "\<forall>q \<in> set (unit_cells i j). cell b q \<noteq> num"
  let ?b1 = "b[i := (b ! i)[j := num]]"
  let ?rest = "card {g. reach b g \<and> cell g (i, j) \<in> set nums}"
  have valid: "is_valid_move b i j num = Inr ?ok" using wf ij by (rule is_valid_move_wf)
  have step: "reach b g \<and> cell g (i, j) = num \<longleftrightarrow> ?ok \<and> reach ?b1 g" for g
    using wf ij z n by (rule reach_step)
  have split: "card {g. reach b g \<and> cell g (i, j) \<in> set (num # nums)} =
      card {g. reach b g \<and> cell g (i, j) = num} + ?rest"
    using fresh by (rule card_reach_split)
  show ?case
  proof (cases "?ok")
    case False
    from valid False have v: "is_valid_move b i j num = Inr False" by simp
    have "{g. reach b g \<and> cell g (i, j) = num} = {}" using step False by blast
    with split have "card {g. reach b g \<and> cell g (i, j) \<in> set (num # nums)} = ?rest"
      by simp
    moreover have "count_nums b i j nums cnt = Inr (b, capped cnt ?rest)"
      using "3.IH"(3) [OF v refl wf ij z sub dist] .
    moreover have "count_nums b i j (num # nums) cnt = count_nums b i j nums cnt"
      using v by simp
    ultimately show ?thesis by simp
  next
    case True
    from valid True have v: "is_valid_move b i j num = Inr True" by simp
    have st: "set_cell b i j num = Inr ?b1" using wf ij by (rule set_cell_wf)
    have wf1: "wf_board ?b1" using wf by (rule wf_board_update)
    let ?n1 = "card {g. reach ?b1 g}"
    have r1: "solve_count ?b1 cnt = Inr (?b1, capped cnt ?n1)"
      using "3.IH"(1) [OF v refl st wf1] .
    have rb: "set_cell ?b1 i j 0 = Inr b"
    proof -
      have "set_cell ?b1 i j 0 = set_cell b i j 0" using st by (rule set_cell_twice)
      also have "\<dots> = Inr b" using wf ij z by (intro set_cell_same) (simp add: get_cell_wf)
      finally show ?thesis .
    qed
    have r2: "count_nums b i j nums (capped cnt ?n1) = Inr (b, capped (capped cnt ?n1) ?rest)"
      using "3.IH"(2) [OF v refl st r1 refl rb wf ij z sub dist] .
    have "{g. reach b g \<and> cell g (i, j) = num} = {g. reach ?b1 g}" using step True by blast
    with split have "card {g. reach b g \<and> cell g (i, j) \<in> set (num # nums)} = ?n1 + ?rest"
      by simp
    moreover have "count_nums b i j (num # nums) cnt = count_nums b i j nums (capped cnt ?n1)"
      using v st r1 rb by simp
    ultimately show ?thesis using r2 by (simp add: capped_capped)
  qed
qed


text \<open>
  The 27 units of the grid: nine rows, nine columns, nine boxes, each as the list of its
  coordinates. A complete valid grid holds a permutation of 1 to 9 in each.
\<close>

definition units :: "(nat \<times> nat) list list" where
  "units = map row_cells [0..<9] @ map col_cells [0..<9] @
           map (\<lambda>k. box_cells (3 * (k div 3)) (3 * (k mod 3))) [0..<9]"

definition valid_grid :: "board \<Rightarrow> bool" where
  "valid_grid g = (wf_board g \<and> (\<forall>u \<in> set units. mset (map (cell g) u) = mset [1..9]))"

definition consistent :: "board \<Rightarrow> bool" where
  "consistent b =
     (wf_board b \<and>
      (\<forall>p \<in> set all_cells.
         0 \<le> cell b p \<and> cell b p \<le> 9 \<and>
         (cell b p \<noteq> 0 \<longrightarrow> (\<forall>q \<in> set (peers p). cell b q \<noteq> cell b p))))"

definition extends :: "board \<Rightarrow> board \<Rightarrow> bool" where
  "extends b g = (\<forall>p \<in> set all_cells. cell b p \<noteq> 0 \<longrightarrow> cell g p = cell b p)"

lemma upt3: "[0..<3] = [0, 1, 2]"
  by code_simp

lemma distinct_row_cells: "distinct (row_cells i)"
  by (simp add: row_cells_def distinct_map inj_on_def)

lemma distinct_col_cells: "distinct (col_cells j)"
  by (simp add: col_cells_def distinct_map inj_on_def)

lemma distinct_box_cells: "distinct (box_cells i j)"
  by (simp add: box_cells_def Let_def upt3)

lemma length_box_cells: "length (box_cells i j) = 9"
  by (simp add: box_cells_def Let_def upt3)

lemma units_length: "u \<in> set units \<Longrightarrow> length u = 9"
  by (auto simp: units_def length_box_cells) (simp_all add: row_cells_def col_cells_def)

lemma units_distinct: "u \<in> set units \<Longrightarrow> distinct u"
  by (auto simp: units_def distinct_row_cells distinct_col_cells distinct_box_cells)

lemma units_cells: "u \<in> set units \<Longrightarrow> set u \<subseteq> set all_cells"
proof
  fix p assume u: "u \<in> set units" and pu: "p \<in> set u"
  obtain r c where p: "p = (r, c)" by (cases p)
  have d: "x div 3 < 3 \<longleftrightarrow> x < 9" for x :: nat by (rule div3_less)
  have "r div 3 = k div 3 \<Longrightarrow> c div 3 = k mod 3 \<Longrightarrow> k < 9 \<Longrightarrow> r < 9 \<and> c < 9" for k :: nat
    using d [of r] d [of c] d [of k] by simp
  with u pu show "p \<in> set all_cells"
    unfolding units_def p
    by (auto simp: in_row_cells in_col_cells in_box_cells in_all_cells) 
qed

lemma perm_1_9_iff:
  fixes xs :: "int list"
  assumes "length xs = 9"
  shows "mset xs = mset [1..9] \<longleftrightarrow> distinct xs \<and> set xs \<subseteq> {1..9}"
proof
  assume eq: "mset xs = mset [1..9]"
  then have "set xs = set [1..9]" by (rule mset_eq_setD)
  moreover have "distinct xs \<longleftrightarrow> distinct [1..9::int]" using eq by (rule mset_eq_imp_distinct_iff)
  ultimately show "distinct xs \<and> set xs \<subseteq> {1..9}" by simp
next
  assume d: "distinct xs \<and> set xs \<subseteq> {1..9}"
  then have "card (set xs) = 9" using assms by (simp add: distinct_card)
  then have "card (set xs) = card {1..9::int}" by simp
  with d have "set xs = {1..9}" by (intro card_subset_eq) simp_all
  then have "set xs = set [1..9]" by simp
  moreover have "distinct xs" "distinct [1..9::int]" using d by simp_all
  ultimately show "mset xs = mset [1..9]"
    using set_eq_iff_mset_eq_distinct [of xs "[1..9]"] by blast
qed

lemma bex_units:
  "(\<exists>u \<in> set units. P u) \<longleftrightarrow>
   (\<exists>i<9. P (row_cells i)) \<or> (\<exists>j<9. P (col_cells j)) \<or>
   (\<exists>k<9. P (box_cells (3 * (k div 3)) (3 * (k mod 3))))"
  by (auto simp: units_def)

lemma share_unit:
  assumes "p \<in> set all_cells" "q \<in> set all_cells"
  shows "same_unit p q \<longleftrightarrow> (\<exists>u \<in> set units. p \<in> set u \<and> q \<in> set u)"
proof -
  obtain i j where p: "p = (i, j)" by (cases p)
  obtain r c where q: "q = (r, c)" by (cases q)
  from assms p q have lt: "i < 9" "j < 9" "r < 9" "c < 9" by (simp_all add: in_all_cells)
  have box: "(\<exists>k<9. i div 3 = k div 3 \<and> j div 3 = k mod 3 \<and> r div 3 = k div 3 \<and> c div 3 = k mod 3)
      \<longleftrightarrow> i div 3 = r div 3 \<and> j div 3 = c div 3"
  proof
    assume "i div 3 = r div 3 \<and> j div 3 = c div 3"
    moreover have d: "x div 3 < 3 \<longleftrightarrow> x < 9" for x :: nat by (rule div3_less)
    have "i div 3 < 3" "j div 3 < 3" using lt d by simp_all
    then have "3 * (i div 3) + j div 3 < 9" "(3 * (i div 3) + j div 3) div 3 = i div 3"
      "(3 * (i div 3) + j div 3) mod 3 = j div 3"
      by simp_all
    ultimately show "\<exists>k<9. i div 3 = k div 3 \<and> j div 3 = k mod 3 \<and> r div 3 = k div 3 \<and> c div 3 = k mod 3"
      by (intro exI [of _ "3 * (i div 3) + j div 3"]) simp
  qed auto
  have d3: "(3 * a) div 3 = a" for a :: nat by simp
  have "(\<exists>u \<in> set units. p \<in> set u \<and> q \<in> set u) \<longleftrightarrow>
        i = r \<or> j = c \<or>
        (\<exists>k<9. i div 3 = k div 3 \<and> j div 3 = k mod 3 \<and> r div 3 = k div 3 \<and> c div 3 = k mod 3)"
    unfolding bex_units p q using lt
    by (auto simp: in_row_cells in_col_cells in_box_cells d3)
  then show ?thesis unfolding box by (simp add: same_unit_def p q)
qed


lemma cell_in_row_unit:
  assumes "p \<in> set all_cells"
  shows "\<exists>u \<in> set units. p \<in> set u"
proof -
  have "same_unit p p" by (simp add: same_unit_def)
  with share_unit [OF assms assms] show ?thesis by blast
qed

lemma valid_grid_iff:
  "valid_grid g \<longleftrightarrow>
     wf_board g \<and>
     (\<forall>p \<in> set all_cells.
        1 \<le> cell g p \<and> cell g p \<le> 9 \<and> (\<forall>q \<in> set (peers p). cell g q \<noteq> cell g p))"
  (is "_ \<longleftrightarrow> _ \<and> ?R")
proof -
  have unit_iff: "mset (map (cell g) u) = mset [1..9] \<longleftrightarrow>
      inj_on (cell g) (set u) \<and> cell g ` set u \<subseteq> {1..9}" if "u \<in> set units" for u
    using perm_1_9_iff [of "map (cell g) u"] units_length [OF that] units_distinct [OF that]
    by (simp add: distinct_map)
  have "(\<forall>u \<in> set units. mset (map (cell g) u) = mset [1..9]) \<longleftrightarrow> ?R"
  proof
    assume L: "\<forall>u \<in> set units. mset (map (cell g) u) = mset [1..9]"
    show ?R
    proof (intro ballI conjI)
      fix p assume p: "p \<in> set all_cells"
      from cell_in_row_unit [OF p] obtain u where u: "u \<in> set units" "p \<in> set u" by blast
      with L unit_iff have "cell g ` set u \<subseteq> {1..9}" by blast
      with u(2) have "cell g p \<in> {1..9}" by blast
      then show "1 \<le> cell g p" "cell g p \<le> 9" by simp_all
    next
      fix p q assume p: "p \<in> set all_cells" and q: "q \<in> set (peers p)"
      then have q': "q \<in> set all_cells" "q \<noteq> p" "same_unit p q" by (simp_all add: in_peers)
      with share_unit [OF p q'(1)] obtain u where u: "u \<in> set units" "p \<in> set u" "q \<in> set u"
        by blast
      with L unit_iff have "inj_on (cell g) (set u)" by blast
      with u q'(2) show "cell g q \<noteq> cell g p" by (auto simp: inj_on_def)
    qed
  next
    assume R: ?R
    show "\<forall>u \<in> set units. mset (map (cell g) u) = mset [1..9]"
    proof
      fix u assume u: "u \<in> set units"
      have sub: "set u \<subseteq> set all_cells" using u by (rule units_cells)
      have "inj_on (cell g) (set u)"
      proof (rule inj_onI)
        fix p q assume pq: "p \<in> set u" "q \<in> set u" "cell g p = cell g q"
        show "p = q"
        proof (rule ccontr)
          assume ne: "p \<noteq> q"
          from pq sub have c: "p \<in> set all_cells" "q \<in> set all_cells" by auto
          with share_unit [OF c] u pq have "same_unit p q" by blast
          with c ne have "q \<in> set (peers p)" by (auto simp: in_peers)
          with R c(1) have "cell g q \<noteq> cell g p" by blast
          with pq(3) show False by simp
        qed
      qed
      moreover have "cell g ` set u \<subseteq> {1..9}" using R sub by auto
      ultimately show "mset (map (cell g) u) = mset [1..9]" using unit_iff [OF u] by simp
    qed
  qed
  then show ?thesis by (simp add: valid_grid_def)
qed

lemma reach_iff:
  assumes "consistent b"
  shows "reach b g \<longleftrightarrow> valid_grid g \<and> extends b g"
proof
  assume re: "reach b g"
  then have wfg: "wf_board g" and
    all: "\<And>p. p \<in> set all_cells \<Longrightarrow>
        (if cell b p \<noteq> 0 then cell g p = cell b p
         else 1 \<le> cell g p \<and> cell g p \<le> 9 \<and> (\<forall>q \<in> set (peers p). cell g q \<noteq> cell g p))"
    by (simp_all add: reach_def)
  from assms have con: "\<And>p. p \<in> set all_cells \<Longrightarrow>
      0 \<le> cell b p \<and> cell b p \<le> 9 \<and>
      (cell b p \<noteq> 0 \<longrightarrow> (\<forall>q \<in> set (peers p). cell b q \<noteq> cell b p))"
    by (simp add: consistent_def)
  have ext: "extends b g" using all by (auto simp: extends_def)
  have "1 \<le> cell g p \<and> cell g p \<le> 9 \<and> (\<forall>q \<in> set (peers p). cell g q \<noteq> cell g p)"
    if p: "p \<in> set all_cells" for p
  proof (cases "cell b p = 0")
    case True
    with all [OF p] show ?thesis by simp
  next
    case False
    with all [OF p] have gp: "cell g p = cell b p" by simp
    have "cell g q \<noteq> cell g p" if q: "q \<in> set (peers p)" for q
    proof (cases "cell b q = 0")
      case False
      from q have q': "q \<in> set all_cells" by (simp add: in_peers)
      with all [OF q'] False have "cell g q = cell b q" by simp
      moreover from con [OF p] \<open>cell b p \<noteq> 0\<close> q have "cell b q \<noteq> cell b p" by blast
      ultimately show ?thesis using gp by simp
    next
      case True
      from q have q': "q \<in> set all_cells" "q \<noteq> p" "same_unit p q" by (simp_all add: in_peers)
      then have "p \<in> set (peers q)" using p same_unit_sym [of p q] by (simp add: in_peers)
      with all [OF q'(1)] True show ?thesis by fastforce
    qed
    moreover from con [OF p] False gp have "1 \<le> cell g p" "cell g p \<le> 9" by simp_all
    ultimately show ?thesis by blast
  qed
  with wfg have "valid_grid g" by (simp add: valid_grid_iff)
  with ext show "valid_grid g \<and> extends b g" by simp
next
  assume "valid_grid g \<and> extends b g"
  then show "reach b g" by (auto simp: valid_grid_iff extends_def reach_def)
qed


section \<open>The two solvers\<close>

text \<open>
  \<open>sudoku_game.py\<close>: \<open>for num in range(1, 10)\<close>; no random state is read.
\<close>

definition solve_sudoku :: "board \<Rightarrow> py_error + (bool \<times> board)" where
  "solve_sudoku b =
     (case solve_search (\<lambda>s. ([1..9], s)) b () of
        Inl e \<Rightarrow> Inl e
      | Inr (ok, g, s) \<Rightarrow> Inr (ok, g))"

text \<open>
  \<open>random.shuffle\<close> is the standard library's exchange shuffle: for \<open>i\<close> from the last
  index down to 1 it draws \<open>j = randbelow(i + 1)\<close> and exchanges \<open>x[i]\<close> and \<open>x[j]\<close>.
  The generator is any function \<open>rand\<close> from its state to a number and the next state;
  \<open>randbelow(n)\<close> is the number drawn, reduced below \<open>n\<close>.
\<close>

fun shuffle_from :: "('r \<Rightarrow> nat \<times> 'r) \<Rightarrow> nat \<Rightarrow> 'a list \<Rightarrow> 'r \<Rightarrow> 'a list \<times> 'r" where
  "shuffle_from rand 0 xs s = (xs, s)"
| "shuffle_from rand (Suc i) xs s =
     (case rand s of
        (v, s1) \<Rightarrow>
          let j = v mod (Suc i + 1)
          in shuffle_from rand i (xs[Suc i := xs ! j, j := xs ! Suc i]) s1)"

definition shuffle :: "('r \<Rightarrow> nat \<times> 'r) \<Rightarrow> 'a list \<Rightarrow> 'r \<Rightarrow> 'a list \<times> 'r" where
  "shuffle rand xs s = shuffle_from rand (length xs - 1) xs s"

text \<open>
  \<open>sudoku_enhanced.py\<close>: \<open>nums = list(range(1, 10)); random.shuffle(nums)\<close>.
\<close>

definition solve_sudoku_enhanced ::
    "('r \<Rightarrow> nat \<times> 'r) \<Rightarrow> board \<Rightarrow> 'r \<Rightarrow> py_error + (bool \<times> board \<times> 'r)" where
  "solve_sudoku_enhanced rand b s = solve_search (shuffle rand [1..9]) b s"

section \<open>Board and puzzle generation\<close>

text \<open>
  \<open>nums.pop()\<close> takes the last element and raises \<open>IndexError\<close> on an empty list.
\<close>

fun fill_cells :: "board \<Rightarrow> (nat \<times> nat) list \<Rightarrow> int list \<Rightarrow> py_error + board" where
  "fill_cells b [] nums = Inr b"
| "fill_cells b ((r, c) # cs) nums =
     (if nums = [] then Inl IndexError
      else case set_cell b r c (last nums) of
             Inl e \<Rightarrow> Inl e
           | Inr b1 \<Rightarrow> fill_cells b1 cs (butlast nums))"

definition diag_cells :: "nat \<Rightarrow> (nat \<times> nat) list" where
  "diag_cells box = concat (map (\<lambda>i. map (\<lambda>j. (box + i, box + j)) [0..<3]) [0..<3])"

fun fill_diagonal ::
    "('r \<Rightarrow> nat \<times> 'r) \<Rightarrow> board \<Rightarrow> nat list \<Rightarrow> 'r \<Rightarrow> py_error + (board \<times> 'r)" where
  "fill_diagonal rand b [] s = Inr (b, s)"
| "fill_diagonal rand b (box # boxes) s =
     (case shuffle rand [1..9] s of
        (nums, s1) \<Rightarrow>
          (case fill_cells b (diag_cells box) nums of
             Inl e \<Rightarrow> Inl e
           | Inr b1 \<Rightarrow> fill_diagonal rand b1 boxes s1))"

definition empty_board :: board where
  "empty_board = replicate 9 (replicate 9 0)"

text \<open>
  \<open>generate_complete_board\<close> drops the result of \<open>solve_sudoku\<close> and returns the board
  as the solver left it. In \<open>sudoku_game.py\<close> the solver is the ascending one, in
  \<open>sudoku_enhanced.py\<close> the shuffling one.
\<close>

definition generate_complete_board ::
    "('r \<Rightarrow> nat \<times> 'r) \<Rightarrow> 'r \<Rightarrow> py_error + (board \<times> 'r)" where
  "generate_complete_board rand s =
     (case fill_diagonal rand empty_board [0, 3, 6] s of
        Inl e \<Rightarrow> Inl e
      | Inr (b, s1) \<Rightarrow>
          (case solve_sudoku b of
             Inl e \<Rightarrow> Inl e
           | Inr (ok, g) \<Rightarrow> Inr (g, s1)))"

definition generate_complete_board_enhanced ::
    "('r \<Rightarrow> nat \<times> 'r) \<Rightarrow> 'r \<Rightarrow> py_error + (board \<times> 'r)" where
  "generate_complete_board_enhanced rand s =
     (case fill_diagonal rand empty_board [0, 3, 6] s of
        Inl e \<Rightarrow> Inl e
      | Inr (b, s1) \<Rightarrow>
          (case solve_sudoku_enhanced rand b s1 of
             Inl e \<Rightarrow> Inl e
           | Inr (ok, g, s2) \<Rightarrow> Inr (g, s2)))"

text \<open>
  The values of the enum are the floats 0.3, 0.5, 0.7 and 0.8; \<open>int(81 * value)\<close>
  truncates. The products are taken here over the rationals, which gives the same four
  integers as the floating-point products 24.3, 40.5, 56.7 and 64.8 (to within rounding
  far from an integer).
\<close>

datatype difficulty = EASY | MEDIUM | HARD | EXPERT

fun difficulty_value :: "difficulty \<Rightarrow> rat" where
  "difficulty_value EASY = 3 / 10"
| "difficulty_value MEDIUM = 5 / 10"
| "difficulty_value HARD = 7 / 10"
| "difficulty_value EXPERT = 8 / 10"

definition cells_to_remove :: "difficulty \<Rightarrow> int" where
  "cells_to_remove d = \<lfloor>81 * difficulty_value d\<rfloor>"

text \<open>
  \<open>sudoku_game.py\<close>: the first \<open>cells_to_remove\<close> coordinates of the shuffled list are
  blanked, with no check.
\<close>

fun blank_cells :: "board \<Rightarrow> (nat \<times> nat) list \<Rightarrow> nat list \<Rightarrow> py_error + board" where
  "blank_cells puzzle cells [] = Inr puzzle"
| "blank_cells puzzle cells (i # is) =
     (if i < length cells
      then case cells ! i of
             (row, col) \<Rightarrow>
               (case set_cell puzzle row col 0 of
                  Inl e \<Rightarrow> Inl e
                | Inr p1 \<Rightarrow> blank_cells p1 cells is)
      else Inl IndexError)"

definition create_puzzle ::
    "('r \<Rightarrow> nat \<times> 'r) \<Rightarrow> difficulty \<Rightarrow> 'r \<Rightarrow> py_error + ((board \<times> board) \<times> 'r)" where
  "create_puzzle rand d s =
     (case generate_complete_board rand s of
        Inl e \<Rightarrow> Inl e
      | Inr (complete_board, s1) \<Rightarrow>
          (case shuffle rand all_cells s1 of
             (cells, s2) \<Rightarrow>
               (case blank_cells complete_board cells [0..<nat (cells_to_remove d)] of
                  Inl e \<Rightarrow> Inl e
                | Inr puzzle \<Rightarrow> Inr ((puzzle, complete_board), s2))))"

text \<open>
  \<open>sudoku_enhanced.py\<close>: a cell stays blank only if \<open>count_solutions\<close> of a copy of the
  puzzle is 1; the loop leaves once \<open>removed_count\<close> has reached \<open>cells_to_remove\<close>.
\<close>

fun remove_cells :: "board \<Rightarrow> (nat \<times> nat) list \<Rightarrow> int \<Rightarrow> int \<Rightarrow> py_error + board" where
  "remove_cells puzzle [] removed_count target = Inr puzzle"
| "remove_cells puzzle ((row, col) # cells) removed_count target =
     (if removed_count \<ge> target then Inr puzzle
      else case get_cell puzzle row col of
             Inl e \<Rightarrow> Inl e
           | Inr temp \<Rightarrow>
               (case set_cell puzzle row col 0 of
                  Inl e \<Rightarrow> Inl e
                | Inr p1 \<Rightarrow>
                    (case count_solutions p1 of
                       Inl e \<Rightarrow> Inl e
                     | Inr (test_board, solutions) \<Rightarrow>
                         if solutions = 1 then remove_cells p1 cells (removed_count + 1) target
                         else (case set_cell p1 row col temp of
                                 Inl e \<Rightarrow> Inl e
                               | Inr p2 \<Rightarrow> remove_cells p2 cells removed_count target))))"

definition create_puzzle_enhanced ::
    "('r \<Rightarrow> nat \<times> 'r) \<Rightarrow> difficulty \<Rightarrow> 'r \<Rightarrow> py_error + ((board \<times> board) \<times> 'r)" where
  "create_puzzle_enhanced rand d s =
     (case generate_complete_board_enhanced rand s of
        Inl e \<Rightarrow> Inl e
      | Inr (complete_board, s1) \<Rightarrow>
          (case shuffle rand all_cells s1 of
             (cells, s2) \<Rightarrow>
               (case remove_cells complete_board cells 0 (cells_to_remove d) of
                  Inl e \<Rightarrow> Inl e
                | Inr puzzle \<Rightarrow> Inr ((puzzle, complete_board), s2))))"


lemma search_total:
  "solve_search_try_nums_dom (Inl (pick, b, s))"
  "solve_search_try_nums_dom (Inr (pick, b, i, j, nums, s))"
proof (induction pick b s and pick b i j nums s rule: solve_search_try_nums.induct)
  case (1 pick b s)
  show ?case
  proof (rule solve_search_try_nums.domintros(1))
    fix i j nums s1
    assume "first_empty b all_cells = Inr (Some (i, j))" "(nums, s1) = pick s"
    from "1.IH" [OF this(1) refl refl this(2)] this(2)
    show "solve_search_try_nums_dom (Inr (pick, b, i, j, pick s))" by simp
  qed
next
  case (2 pick b i j s)
  show ?case by (rule solve_search_try_nums.domintros(2))
next
  case (3 pick b i j num nums s)
  show ?case
  proof (rule solve_search_try_nums.domintros(3), goal_cases)
    case (1 ba b1)
    then show ?case using "3.IH"(1) by simp
  next
    case (2 ba b1 b2 s2 x b3)
    from "3.IH"(2) [OF 2(1) refl 2(3) 2(4) refl refl refl 2(6)] show ?case .
  next
    case (3 ba)
    from "3.IH"(3) [OF 3(1) refl] show ?case .
  qed
qed

lemma count_total:
  "solve_count_count_nums_dom (Inl (b, cnt))"
  "solve_count_count_nums_dom (Inr (b, i, j, nums, cnt))"
proof (induction b cnt and b i j nums cnt rule: solve_count_count_nums.induct)
  case (1 b cnt)
  show ?case
  proof (rule solve_count_count_nums.domintros(1))
    fix i j
    assume "\<not> 1 < cnt" "first_empty b all_cells = Inr (Some (i, j))"
    from "1.IH" [OF this(1) this(2) refl refl]
    show "solve_count_count_nums_dom (Inr (b, i, j, [1..9], cnt))" .
  qed
next
  case (2 b i j cnt)
  show ?case by (rule solve_count_count_nums.domintros(2))
next
  case (3 b i j num nums cnt)
  show ?case
  proof (rule solve_count_count_nums.domintros(3), goal_cases)
    case (1 ba b1)
    then show ?case using "3.IH"(1) by simp
  next
    case (2 ba b1 b2 c2 b3)
    from "3.IH"(2) [OF 2(1) refl 2(3) 2(4) refl 2(5)] show ?case .
  next
    case (3 ba)
    from "3.IH"(3) [OF 3(1) refl] show ?case .
  qed
qed



lemma mset_shuffle_from:
  "i < length xs \<Longrightarrow> mset (fst (shuffle_from rand i xs s)) = mset xs"
proof (induction i arbitrary: xs s)
  case 0
  then show ?case by simp
next
  case (Suc i)
  obtain v s1 where r: "rand s = (v, s1)" by (cases "rand s")
  let ?j = "v mod (Suc i + 1)"
  let ?ys = "xs[Suc i := xs ! ?j, ?j := xs ! Suc i]"
  have "?j < Suc i + 1" by (rule mod_less_divisor) simp
  then have j: "?j < length xs" using Suc.prems by linarith
  have "mset ?ys = mset xs" using Suc.prems j by (simp add: mset_swap)
  moreover have "i < length ?ys" using Suc.prems by simp
  ultimately have "mset (fst (shuffle_from rand i ?ys s1)) = mset xs"
    using Suc.IH [of ?ys s1] by simp
  then show ?case using r by (simp add: Let_def)
qed

lemma mset_shuffle: "mset (fst (shuffle rand xs s)) = mset xs"
proof (cases xs)
  case Nil
  then show ?thesis by (simp add: shuffle_def)
next
  case (Cons x ys)
  then show ?thesis unfolding shuffle_def by (intro mset_shuffle_from) simp
qed

lemma set_shuffle: "set (fst (shuffle rand xs s)) = set xs"
  using mset_shuffle [of rand xs s] by (rule mset_eq_setD)

lemma length_shuffle: "length (fst (shuffle rand xs s)) = length xs"
  using mset_shuffle [of rand xs s] by (rule mset_eq_length)

lemma distinct_shuffle: "distinct (fst (shuffle rand xs s)) \<longleftrightarrow> distinct xs"
  using mset_shuffle [of rand xs s] by (rule mset_eq_imp_distinct_iff)


lemma solve_sudoku_post:
  assumes "wf_board b"
  shows "\<exists>ok g. solve_sudoku b = Inr (ok, g) \<and> search_post b (ok, g, ())"
proof -
  have "\<exists>r. solve_search (\<lambda>s::unit. ([1..9], s)) b () = Inr r \<and> search_post b r"
    using assms by (intro search_correct(1)) simp_all
  then obtain ok g s where "solve_search (\<lambda>s::unit. ([1..9], s)) b () = Inr (ok, g, s)"
    "search_post b (ok, g, s)"
    by (metis prod_cases3)
  then show ?thesis by (auto simp: solve_sudoku_def search_post_def)
qed

lemma solve_sudoku_enhanced_post:
  assumes "wf_board b"
  shows "\<exists>ok g s'. solve_sudoku_enhanced rand b s = Inr (ok, g, s') \<and> search_post b (ok, g, s')"
proof -
  have "\<exists>r. solve_search (shuffle rand [1..9]) b s = Inr r \<and> search_post b r"
    using assms by (intro search_correct(1)) (simp_all add: set_shuffle)
  then show ?thesis unfolding solve_sudoku_enhanced_def by (metis prod_cases3)
qed

lemma search_post_wf: "wf_board b \<Longrightarrow> search_post b (ok, g, s) \<Longrightarrow> wf_board g"
  by (auto simp: search_post_def reach_def split: if_splits)

section \<open>Boards for the examples\<close>

text \<open>A complete valid grid, and the same grid with three cells blanked.\<close>

definition grid_a :: board where
  "grid_a =
    [[1, 2, 3, 4, 5, 6, 7, 8, 9],
     [4, 5, 6, 7, 8, 9, 1, 2, 3],
     [7, 8, 9, 1, 2, 3, 4, 5, 6],
     [2, 1, 4, 3, 6, 5, 8, 9, 7],
     [3, 6, 5, 8, 9, 7, 2, 1, 4],
     [8, 9, 7, 2, 1, 4, 3, 6, 5],
     [5, 3, 1, 6, 4, 2, 9, 7, 8],
     [6, 4, 2, 9, 7, 8, 5, 3, 1],
     [9, 7, 8, 5, 3, 1, 6, 4, 2]]"

definition grid_b :: board where
  "grid_b =
    [[0, 2, 3, 4, 5, 6, 7, 8, 9],
     [4, 5, 6, 7, 8, 9, 1, 2, 3],
     [7, 8, 9, 1, 2, 3, 4, 5, 6],
     [2, 1, 4, 3, 6, 5, 8, 9, 7],
     [3, 6, 5, 8, 0, 7, 2, 1, 4],
     [8, 9, 7, 2, 1, 4, 3, 6, 5],
     [5, 3, 1, 6, 4, 2, 9, 7, 8],
     [6, 4, 2, 9, 7, 8, 5, 3, 1],
     [9, 7, 8, 5, 3, 1, 6, 4, 0]]"

text \<open>\<open>grid_b\<close> after the digit 1 has been placed on its first blank cell.\<close>

definition grid_b1 :: board where
  "grid_b1 =
    [[1, 2, 3, 4, 5, 6, 7, 8, 9],
     [4, 5, 6, 7, 8, 9, 1, 2, 3],
     [7, 8, 9, 1, 2, 3, 4, 5, 6],
     [2, 1, 4, 3, 6, 5, 8, 9, 7],
     [3, 6, 5, 8, 0, 7, 2, 1, 4],
     [8, 9, 7, 2, 1, 4, 3, 6, 5],
     [5, 3, 1, 6, 4, 2, 9, 7, 8],
     [6, 4, 2, 9, 7, 8, 5, 3, 1],
     [9, 7, 8, 5, 3, 1, 6, 4, 0]]"

text \<open>
  A board with one blank cell that no digit fits: the first cell is blank and its row,
  column and box hold all of 1 to 9 (the 1 beside it repeats the 1 of the second row's
  seventh cell, which is no peer of the blank cell).
\<close>

definition grid_c :: board where
  "grid_c =
    [[0, 1, 3, 4, 5, 6, 7, 8, 9],
     [4, 5, 6, 7, 8, 9, 1, 2, 3],
     [7, 8, 9, 1, 2, 3, 4, 5, 6],
     [2, 1, 4, 3, 6, 5, 8, 9, 7],
     [3, 6, 5, 8, 9, 7, 2, 1, 4],
     [8, 9, 7, 2, 1, 4, 3, 6, 5],
     [5, 3, 1, 6, 4, 2, 9, 7, 8],
     [6, 4, 2, 9, 7, 8, 5, 3, 1],
     [9, 7, 8, 5, 3, 1, 6, 4, 2]]"

text \<open>
  C5. Validator correctness: on a 9x9 board, \<open>is_valid_move\<close> returns \<open>True\<close> exactly
  when \<open>num\<close> is nowhere in the row, nowhere in the column and nowhere in the 3x3 box
  of the cell; and once a digit has been placed where the validator allowed it, the
  validator refuses the same digit at every cell that shares the row, the column or the
  box.
\<close>

theorem is_valid_move_correct:
  assumes "wf_board b" "row < 9" "col < 9"
  shows "is_valid_move b row col num =
           Inr ((\<forall>c<9. cell b (row, c) \<noteq> num) \<and> (\<forall>r<9. cell b (r, col) \<noteq> num) \<and>
                (\<forall>r<9. \<forall>c<9. r div 3 = row div 3 \<and> c div 3 = col div 3 \<longrightarrow>
                   cell b (r, c) \<noteq> num)) \<and>
         (\<forall>b1 r c. is_valid_move b row col num = Inr True \<and> set_cell b row col num = Inr b1 \<and>
              r < 9 \<and> c < 9 \<and> same_unit (row, col) (r, c) \<longrightarrow>
              is_valid_move b1 r c num = Inr False)"
proof (intro conjI allI impI)
  have "(\<forall>q \<in> set (unit_cells row col). cell b q \<noteq> num) \<longleftrightarrow>
        (\<forall>c<9. cell b (row, c) \<noteq> num) \<and> (\<forall>r<9. cell b (r, col) \<noteq> num) \<and>
        (\<forall>r<9. \<forall>c<9. r div 3 = row div 3 \<and> c div 3 = col div 3 \<longrightarrow> cell b (r, c) \<noteq> num)"
    (is "?L \<longleftrightarrow> ?R")
  proof
    assume L: ?L
    have *: "cell b (r, c) \<noteq> num" if "r < 9" "c < 9" "same_unit (row, col) (r, c)" for r c
      using L that in_unit_cells [OF assms(2,3), of "(r, c)"] by (simp add: in_all_cells)
    have "cell b (row, c) \<noteq> num" if "c < 9" for c
      using * [of row c] that assms(2) by (simp add: same_unit_def)
    moreover have "cell b (r, col) \<noteq> num" if "r < 9" for r
      using * [of r col] that assms(3) by (simp add: same_unit_def)
    moreover have "cell b (r, c) \<noteq> num"
      if "r < 9" "c < 9" "r div 3 = row div 3 \<and> c div 3 = col div 3" for r c
      using * [of r c] that by (simp add: same_unit_def)
    ultimately show ?R by blast
  next
    assume R: ?R
    show ?L
    proof
      fix q assume "q \<in> set (unit_cells row col)"
      then have q: "q \<in> set all_cells" "same_unit (row, col) q"
        using in_unit_cells [OF assms(2,3)] by simp_all
      obtain r c where rc: "q = (r, c)" by (cases q)
      from q rc have lt: "r < 9" "c < 9" by (simp_all add: in_all_cells)
      from q rc consider "row = r" | "col = c" | "r div 3 = row div 3 \<and> c div 3 = col div 3"
        by (auto simp: same_unit_def)
      then have "cell b (r, c) \<noteq> num"
      proof cases
        case 1
        with R lt show ?thesis by blast
      next
        case 2
        with R lt show ?thesis by blast
      next
        case 3
        with R lt show ?thesis by blast
      qed
      with rc show "cell b q \<noteq> num" by simp
    qed
  qed
  then show "is_valid_move b row col num =
           Inr ((\<forall>c<9. cell b (row, c) \<noteq> num) \<and> (\<forall>r<9. cell b (r, col) \<noteq> num) \<and>
                (\<forall>r<9. \<forall>c<9. r div 3 = row div 3 \<and> c div 3 = col div 3 \<longrightarrow>
                   cell b (r, c) \<noteq> num))"
    using is_valid_move_wf [OF assms] by simp
next
  fix b1 r c
  assume a: "is_valid_move b row col num = Inr True \<and> set_cell b row col num = Inr b1 \<and>
     r < 9 \<and> c < 9 \<and> same_unit (row, col) (r, c)"
  then have b1: "b1 = b[row := (b ! row)[col := num]]" by (simp add: set_cell_eq)
  then have wf1: "wf_board b1" using assms(1) by (simp add: wf_board_update)
  have "cell b1 (row, col) = num" unfolding b1 using assms by (simp add: cell_update)
  moreover have "(row, col) \<in> set (unit_cells r c)"
    using a assms(2,3) in_unit_cells [of r c "(row, col)"] same_unit_sym [of "(row, col)" "(r, c)"]
    by (simp add: in_all_cells)
  ultimately have "\<not> (\<forall>q \<in> set (unit_cells r c). cell b1 q \<noteq> num)" by blast
  with is_valid_move_wf [OF wf1, of r c num] a show "is_valid_move b1 r c num = Inr False"
    by simp
qed


theorem is_valid_move_correct_witness:
  "wf_board grid_b \<and> is_valid_move grid_b 0 0 1 = Inr True \<and>
   set_cell grid_b 0 0 1 = Inr grid_b1 \<and> is_valid_move grid_b1 4 0 1 = Inr False"
proof -
  have h1: "wf_board grid_b" by code_simp
  have h2: "is_valid_move grid_b 0 0 1 = Inr True" by code_simp
  have h3: "set_cell grid_b 0 0 1 = Inr grid_b1" by code_simp
  have c: "is_valid_move grid_b1 4 0 1 = Inr False"
    by (rule is_valid_move_correct [THEN conjunct2, rule_format, of grid_b 0 0 1])
       (simp_all add: h1 h2 h3 same_unit_def)
  from h1 h2 h3 c show ?thesis by (intro conjI)
qed

text \<open>
  C7. Backtracking restores the board: whenever \<open>solve_sudoku\<close> (either variant)
  returns \<open>False\<close> the board is the board it was given, and \<open>count_solutions\<close>
  returns with the board it was given whatever the count. This holds for every list of
  lists, also one that is not 9x9, as long as the call returns.
\<close>

theorem backtracking_restores:
  "(solve_sudoku b = Inr (False, g1) \<longrightarrow> g1 = b) \<and>
   (solve_sudoku_enhanced rand b s = Inr (False, g2, s') \<longrightarrow> g2 = b) \<and>
   (count_solutions b = Inr (g3, n) \<longrightarrow> g3 = b)"
proof (intro conjI impI)
  assume "solve_sudoku b = Inr (False, g1)"
  then obtain u where "solve_search (\<lambda>s::unit. ([1..9], s)) b () = Inr (False, g1, u)"
    by (auto simp: solve_sudoku_def split: sum.splits)
  with search_total(1) show "g1 = b" by (rule search_restores(1))
next
  assume "solve_sudoku_enhanced rand b s = Inr (False, g2, s')"
  then have "solve_search (shuffle rand [1..9]) b s = Inr (False, g2, s')"
    by (simp add: solve_sudoku_enhanced_def)
  with search_total(1) show "g2 = b" by (rule search_restores(1))
next
  assume "count_solutions b = Inr (g3, n)"
  then have "solve_count b 0 = Inr (g3, n)" by (simp add: count_solutions_def)
  with count_total(1) show "g3 = b" by (rule count_restores(1))
qed

theorem backtracking_restores_witness:
  "solve_sudoku grid_c = Inr (False, grid_c) \<and>
   solve_sudoku_enhanced (\<lambda>s::unit. (0, s)) grid_c () = Inr (False, grid_c, ()) \<and>
   count_solutions grid_b = Inr (grid_b, 1)"
proof -
  let ?g1 = "snd (projr (solve_sudoku grid_c))"
  let ?g2 = "fst (snd (projr (solve_sudoku_enhanced (\<lambda>s::unit. (0, s)) grid_c ())))"
  let ?g3 = "fst (projr (count_solutions grid_b))"
  have h1: "solve_sudoku grid_c = Inr (False, ?g1)" by code_simp
  have h2: "solve_sudoku_enhanced (\<lambda>s::unit. (0, s)) grid_c () = Inr (False, ?g2, ())"
    by code_simp
  have h3: "count_solutions grid_b = Inr (?g3, 1)" by code_simp
  have e1: "?g1 = grid_c"
    by (rule backtracking_restores [THEN conjunct1, THEN mp, OF h1])
  have e2: "?g2 = grid_c"
    by (rule backtracking_restores [THEN conjunct2, THEN conjunct1, THEN mp, OF h2])
  have e3: "?g3 = grid_b"
    by (rule backtracking_restores [THEN conjunct2, THEN conjunct2, THEN mp, OF h3])
  have "solve_sudoku grid_c = Inr (False, grid_c)" using h1 by (simp only: e1)
  moreover have "solve_sudoku_enhanced (\<lambda>s::unit. (0, s)) grid_c () = Inr (False, grid_c, ())"
    using h2 by (simp only: e2)
  moreover have "count_solutions grid_b = Inr (grid_b, 1)" using h3 by (simp only: e3)
  ultimately show ?thesis by (intro conjI)
qed


end
